theory Spec2Isabelle
  imports Complex_Main "HOL-Library.Multiset"
begin

section \<open>Data model\<close>

text \<open>
  The addon keeps three pieces of state: the host scene properties
  (\<open>ryref_images\<close>, \<open>ryref_index\<close>, \<open>ryref_references_on\<close>), the
  module-level dictionary \<open>_image_cache\<close>, and whatever the GPU has been told to
  draw.  Python floats are idealised as reals, Python ints as \<open>int\<close>.
\<close>

type_synonym vec2 = "real \<times> real"

text \<open>\<open>class RyRefImage(bpy.types.PropertyGroup)\<close>\<close>

record RyRefImage =
  name :: string
  filepath :: string
  visible :: bool
  position :: vec2
  scale :: vec2
  opacity :: real
  flip_x :: bool
  flip_y :: bool

text \<open>
  What \<open>draw_overlay\<close> reads of a \<open>bpy.types.Image\<close>: \<open>image.has_data\<close> and
  \<open>image.size\<close> (named \<open>size_px\<close> here, \<open>size\<close> being a HOL constant).
\<close>

record image =
  has_data :: bool
  size_px :: "int \<times> int"

type_synonym gpu_tex = nat

type_synonym cache_entry = "image \<times> gpu_tex"

text \<open>\<open>_image_cache = {}\<close>: file path to \<open>(image, gpu_tex)\<close>.\<close>

type_synonym image_cache = "string \<rightharpoonup> cache_entry"

text \<open>
  The body of the \<open>try\<close> block of \<open>draw_overlay\<close>
  (\<open>bpy.data.images.load\<close>, \<open>image.gl_load\<close>, \<open>gpu.texture.from_image\<close>) is the
  host's: for a path it either yields an image and a texture or raises.  It is a
  parameter of the model, \<open>None\<close> standing for any raised \<open>Exception\<close>.
\<close>

type_synonym loader = "string \<Rightarrow> cache_entry option"

record scene =
  ryref_images :: "RyRefImage list"
  ryref_index :: int
  ryref_references_on :: bool

datatype blend_mode = ALPHA | NONE

text \<open>The arguments of \<open>batch_for_shader(_shader, 'TRIS', {...}, indices=...)\<close>.\<close>

record batch =
  pos :: "vec2 list"
  texCoord :: "(int \<times> int) list"
  indices :: "(nat \<times> nat \<times> nat) list"

text \<open>
  What a frame does to the outside world, in order: a run of the \<open>try\<close> block for
  a path that completed (\<open>LoadOk\<close>) or raised (\<open>LoadFail\<close>), and the GPU calls.
\<close>

datatype event =
    LoadOk string
  | LoadFail string
  | BlendSet blend_mode
  | ShaderBind
  | UniformSampler gpu_tex
  | UniformColor "real \<times> real \<times> real \<times> real"
  | BatchDraw batch

section \<open>The compositor: \<open>draw_overlay\<close>\<close>

text \<open>Lines 119--123: the texture coordinates and the two flips.\<close>

definition uvs :: "bool \<Rightarrow> bool \<Rightarrow> (int \<times> int) list" where
  "uvs fx fy =
     (let uvs0 = [(0, 0), (1, 0), (1, 1), (0, 1)];
          uvs1 = (if fx then map (\<lambda>(u, v). (1 - u, v)) uvs0 else uvs0)
      in (if fy then map (\<lambda>(u, v). (u, 1 - v)) uvs1 else uvs1))"

text \<open>Lines 112--117: the four corners of the quad.\<close>

definition coords :: "vec2 \<Rightarrow> real \<Rightarrow> real \<Rightarrow> vec2 list" where
  "coords p width height =
     (case p of (x, y) \<Rightarrow>
        [(x, y), (x + width, y), (x + width, y + height), (x, y + height)])"

text \<open>
  Lines 92--101: look the path up in the cache; when it is absent run the
  \<open>try\<close> block and store its result, or leave the cache alone when it raises.
\<close>

definition resolve ::
  "loader \<Rightarrow> image_cache \<Rightarrow> string \<Rightarrow> image_cache \<times> event list \<times> cache_entry option" where
  "resolve ld cache fp =
     (case cache fp of
        None \<Rightarrow>
          (case ld fp of
             Some e \<Rightarrow> (cache(fp \<mapsto> e), [LoadOk fp], Some e)
           | None \<Rightarrow> (cache, [LoadFail fp], None))
      | Some e \<Rightarrow> (cache, [], Some e))"

text \<open>Lines 127--138: the GPU calls for one quad.\<close>

definition draw_quad :: "RyRefImage \<Rightarrow> image \<Rightarrow> gpu_tex \<Rightarrow> event list" where
  "draw_quad img_data im tex =
     (case scale img_data of (sx, sy) \<Rightarrow>
        (let width = of_int (fst (size_px im)) * sx;
             height = of_int (snd (size_px im)) * sy
         in [BlendSet ALPHA,
             ShaderBind,
             UniformSampler tex,
             UniformColor (1, 1, 1, opacity img_data),
             BatchDraw \<lparr>pos = coords (position img_data) width height,
                        texCoord = uvs (flip_x img_data) (flip_y img_data),
                        indices = [(0, 1, 2), (2, 3, 0)]\<rparr>,
             BlendSet NONE]))"

text \<open>Lines 88--138: the body of the \<open>for\<close> loop, for one record.\<close>

definition draw_image :: "loader \<Rightarrow> image_cache \<Rightarrow> RyRefImage \<Rightarrow> image_cache \<times> event list" where
  "draw_image ld cache img_data =
     (if \<not> visible img_data then (cache, [])
      else
        (case resolve ld cache (filepath img_data) of
           (cache', evs, None) \<Rightarrow> (cache', evs)
         | (cache', evs, Some (im, tex)) \<Rightarrow>
             (if \<not> has_data im \<or> fst (size_px im) = 0 \<or> snd (size_px im) = 0
              then (cache', evs)
              else (cache', evs @ draw_quad img_data im tex))))"

text \<open>Line 87: the loop over \<open>scene.ryref_images\<close>, in store order.\<close>

fun draw_images :: "loader \<Rightarrow> image_cache \<Rightarrow> RyRefImage list \<Rightarrow> image_cache \<times> event list" where
  "draw_images ld cache [] = (cache, [])"
| "draw_images ld cache (img_data # rest) =
     (case draw_image ld cache img_data of
        (cache', evs) \<Rightarrow>
          (case draw_images ld cache' rest of
             (cache'', evs') \<Rightarrow> (cache'', evs @ evs')))"

text \<open>Lines 82--85: the global switch.\<close>

definition draw_overlay :: "loader \<Rightarrow> image_cache \<Rightarrow> scene \<Rightarrow> image_cache \<times> event list" where
  "draw_overlay ld cache sc =
     (if \<not> ryref_references_on sc then (cache, [])
      else draw_images ld cache (ryref_images sc))"

text \<open>
  A run of frames with nothing in between: each frame has its own loader (files
  may appear or vanish between frames) and its own scene.
\<close>

fun frames :: "image_cache \<Rightarrow> (loader \<times> scene) list \<Rightarrow> image_cache \<times> event list" where
  "frames cache [] = (cache, [])"
| "frames cache ((ld, sc) # fs) =
     (case draw_overlay ld cache sc of
        (cache', evs) \<Rightarrow>
          (case frames cache' fs of
             (cache'', evs') \<Rightarrow> (cache'', evs @ evs')))"

section \<open>The list operators\<close>

datatype error = IndexError

datatype op_result = FINISHED | RUNNING_MODAL

datatype direction = UP | DOWN

text \<open>
  The host's collection accessors.  \<open>images[idx]\<close> raises out of range (negative
  indices count from the end); \<open>images.remove(idx)\<close> and \<open>images.move(src, dst)\<close>
  of a \<open>bpy_prop_collection\<close> do nothing when an index is out of range.
\<close>

definition coll_get :: "'a list \<Rightarrow> int \<Rightarrow> error + 'a" where
  "coll_get xs i =
     (let n = int (length xs);
          j = (if i < 0 then i + n else i)
      in if 0 \<le> j \<and> j < n then Inr (xs ! nat j) else Inl IndexError)"

definition coll_remove :: "'a list \<Rightarrow> int \<Rightarrow> 'a list" where
  "coll_remove xs i =
     (if 0 \<le> i \<and> i < int (length xs)
      then take (nat i) xs @ drop (Suc (nat i)) xs
      else xs)"

definition coll_move :: "'a list \<Rightarrow> int \<Rightarrow> int \<Rightarrow> 'a list" where
  "coll_move xs src dst =
     (if 0 \<le> src \<and> src < int (length xs) \<and> 0 \<le> dst \<and> dst < int (length xs) \<and> src \<noteq> dst
      then (let x = xs ! nat src;
                ys = take (nat src) xs @ drop (Suc (nat src)) xs
            in take (nat dst) ys @ [x] @ drop (nat dst) ys)
      else xs)"

text \<open>
  A record as \<open>ryref_images.add()\<close> creates it: every property at the default
  declared in \<open>RyRefImage\<close> (lines 31--79).
\<close>

definition default_image :: RyRefImage where
  "default_image =
     \<lparr>name = ''Reference'', filepath = [], visible = True,
      position = (100, 100), scale = (1 / 5, 1 / 5), opacity = 1,
      flip_x = False, flip_y = False\<rparr>"

text \<open>
  \<open>RYREF_OT_add_image.execute\<close>, lines 147--160.  The display name is computed by
  \<open>os.path.basename\<close> and \<open>os.path.splitext\<close>; it is passed in as \<open>nm\<close>.
\<close>

definition add_image_execute ::
  "string \<Rightarrow> string \<Rightarrow> image_cache \<times> scene \<Rightarrow> error + (op_result \<times> image_cache \<times> scene)" where
  "add_image_execute nm fp st =
     (case st of (cache, sc) \<Rightarrow>
        (let img = default_image\<lparr>filepath := fp, name := nm, position := (100, 100),
                                   scale := (1 / 5, 1 / 5), opacity := 1\<rparr>;
             images = ryref_images sc @ [img]
         in Inr (FINISHED, cache,
                 sc\<lparr>ryref_images := images, ryref_index := int (length images) - 1\<rparr>)))"

text \<open>\<open>RYREF_OT_remove_image.execute\<close>, lines 171--179.\<close>

definition remove_image_execute ::
  "image_cache \<times> scene \<Rightarrow> error + (op_result \<times> image_cache \<times> scene)" where
  "remove_image_execute st =
     (case st of (cache, sc) \<Rightarrow>
        (let idx = ryref_index sc in
         if 0 \<le> idx \<and> idx < int (length (ryref_images sc)) then
           (case coll_get (ryref_images sc) idx of
              Inl e \<Rightarrow> Inl e
            | Inr img \<Rightarrow>
                Inr (FINISHED,
                     cache(filepath img := None),
                     sc\<lparr>ryref_images := coll_remove (ryref_images sc) idx,
                        ryref_index := max 0 (idx - 1)\<rparr>))
         else Inr (FINISHED, cache, sc)))"

text \<open>\<open>RYREF_OT_move_image.execute\<close>, lines 191--203.\<close>

definition move_image_execute ::
  "direction \<Rightarrow> image_cache \<times> scene \<Rightarrow> error + (op_result \<times> image_cache \<times> scene)" where
  "move_image_execute dir st =
     (case st of (cache, sc) \<Rightarrow>
        (let images = ryref_images sc;
             index = ryref_index sc
         in if dir = UP \<and> index > 0 then
              Inr (FINISHED, cache,
                   sc\<lparr>ryref_images := coll_move images index (index - 1),
                      ryref_index := index - 1\<rparr>)
            else if dir = DOWN \<and> index < int (length images) - 1 then
              Inr (FINISHED, cache,
                   sc\<lparr>ryref_images := coll_move images index (index + 1),
                      ryref_index := index + 1\<rparr>)
            else Inr (FINISHED, cache, sc)))"

section \<open>Facts about one record and one frame\<close>

lemma draw_image_hidden: "\<not> visible r \<Longrightarrow> draw_image ld c r = (c, [])"
  by (simp add: draw_image_def)

lemma resolve_keeps: "c p = Some e \<Longrightarrow> fst (resolve ld c fp) p = Some e"
  by (auto simp: resolve_def split: option.splits)

lemma draw_image_keeps: "c p = Some e \<Longrightarrow> fst (draw_image ld c r) p = Some e"
  by (auto simp: draw_image_def resolve_def split: option.splits)

lemma draw_quad_no_load: "LoadOk p \<notin> set (draw_quad r im t) \<and> LoadFail p \<notin> set (draw_quad r im t)"
  by (simp add: draw_quad_def split: prod.splits)

lemma draw_image_no_load:
  "c p = Some e \<Longrightarrow> LoadOk p \<notin> set (snd (draw_image ld c r)) \<and> LoadFail p \<notin> set (snd (draw_image ld c r))"
  using draw_quad_no_load by (auto simp: draw_image_def resolve_def split: option.splits)

lemma draw_image_loaded:
  "LoadOk p \<in> set (snd (draw_image ld c r)) \<Longrightarrow> fst (draw_image ld c r) p \<noteq> None"
  using draw_quad_no_load by (auto simp: draw_image_def resolve_def split: option.splits if_splits)

lemma draw_image_count: "count_list (snd (draw_image ld c r)) (LoadOk p) \<le> 1"
  by (auto simp: draw_image_def resolve_def draw_quad_def split: option.splits prod.splits)

lemma draw_images_append:
  "draw_images ld c (xs @ ys) =
     (case draw_images ld c xs of (c', evs) \<Rightarrow>
        (case draw_images ld c' ys of (c'', evs') \<Rightarrow> (c'', evs @ evs')))"
  by (induction xs arbitrary: c) (auto split: prod.splits)

lemma draw_images_keeps: "c p = Some e \<Longrightarrow> fst (draw_images ld c rs) p = Some e"
proof (induction rs arbitrary: c)
  case Nil
  then show ?case by simp
next
  case (Cons r rs)
  obtain c1 e1 where d1: "draw_image ld c r = (c1, e1)" by (cases "draw_image ld c r")
  obtain c2 e2 where d2: "draw_images ld c1 rs = (c2, e2)" by (cases "draw_images ld c1 rs")
  from draw_image_keeps [of c p e ld r] Cons.prems d1 have "c1 p = Some e" by simp
  with Cons.IH [of c1] d2 have "c2 p = Some e" by simp
  with d1 d2 show ?case by simp
qed

lemma draw_images_no_load:
  "c p = Some e \<Longrightarrow> LoadOk p \<notin> set (snd (draw_images ld c rs)) \<and> LoadFail p \<notin> set (snd (draw_images ld c rs))"
proof (induction rs arbitrary: c)
  case Nil
  then show ?case by simp
next
  case (Cons r rs)
  obtain c1 e1 where d1: "draw_image ld c r = (c1, e1)" by (cases "draw_image ld c r")
  obtain c2 e2 where d2: "draw_images ld c1 rs = (c2, e2)" by (cases "draw_images ld c1 rs")
  from draw_image_keeps [of c p e ld r] Cons.prems d1 have k: "c1 p = Some e" by simp
  from draw_image_no_load [of c p e ld r] Cons.prems d1
  have a: "LoadOk p \<notin> set e1 \<and> LoadFail p \<notin> set e1" by simp
  from Cons.IH [of c1] k d2 have b: "LoadOk p \<notin> set e2 \<and> LoadFail p \<notin> set e2" by simp
  from a b d1 d2 show ?case by simp
qed

lemma draw_images_loaded:
  "LoadOk p \<in> set (snd (draw_images ld c rs)) \<Longrightarrow> fst (draw_images ld c rs) p \<noteq> None"
proof (induction rs arbitrary: c)
  case Nil
  then show ?case by simp
next
  case (Cons r rs)
  obtain c1 e1 where d1: "draw_image ld c r = (c1, e1)" by (cases "draw_image ld c r")
  obtain c2 e2 where d2: "draw_images ld c1 rs = (c2, e2)" by (cases "draw_images ld c1 rs")
  from Cons.prems d1 d2 have "LoadOk p \<in> set e1 \<or> LoadOk p \<in> set e2" by auto
  then show ?case
  proof
    assume "LoadOk p \<in> set e1"
    with d1 draw_image_loaded [of p ld c r] obtain e where "c1 p = Some e" by auto
    then have c1p: "c1 p = Some e" .
    from draw_images_keeps [of c1 p e ld rs] c1p d1 d2 show ?thesis by simp
  next
    assume "LoadOk p \<in> set e2"
    with Cons.IH [of c1] d1 d2 show ?thesis by simp
  qed
qed

lemma draw_images_count: "count_list (snd (draw_images ld c rs)) (LoadOk p) \<le> 1"
proof (induction rs arbitrary: c)
  case Nil
  then show ?case by simp
next
  case (Cons r rs)
  obtain c1 e1 where d1: "draw_image ld c r = (c1, e1)" by (cases "draw_image ld c r")
  obtain c2 e2 where d2: "draw_images ld c1 rs = (c2, e2)" by (cases "draw_images ld c1 rs")
  show ?case
  proof (cases "LoadOk p \<in> set e1")
    case True
    with d1 draw_image_loaded [of p ld c r] obtain e where "c1 p = Some e" by auto
    then have c1p: "c1 p = Some e" .
    from draw_images_no_load [of c1 p e ld rs] c1p d2 have "count_list e2 (LoadOk p) = 0"
      by simp
    with draw_image_count [of ld c r p] d1 d2 show ?thesis by simp
  next
    case False
    then have "count_list e1 (LoadOk p) = 0" by simp
    with Cons.IH [of c1] d1 d2 show ?thesis by simp
  qed
qed

lemma draw_overlay_keeps: "c p = Some e \<Longrightarrow> fst (draw_overlay ld c sc) p = Some e"
  by (simp add: draw_overlay_def draw_images_keeps)

lemma draw_overlay_no_load:
  "c p = Some e \<Longrightarrow>
     LoadOk p \<notin> set (snd (draw_overlay ld c sc)) \<and> LoadFail p \<notin> set (snd (draw_overlay ld c sc))"
  using draw_images_no_load [of c p e ld "ryref_images sc"] by (simp add: draw_overlay_def)

lemma frames_keeps: "c p = Some e \<Longrightarrow> fst (frames c fs) p = Some e"
proof (induction fs arbitrary: c)
  case Nil
  then show ?case by simp
next
  case (Cons f fs)
  obtain ld sc where f: "f = (ld, sc)" by (cases f)
  obtain c1 e1 where d1: "draw_overlay ld c sc = (c1, e1)" by (cases "draw_overlay ld c sc")
  obtain c2 e2 where d2: "frames c1 fs = (c2, e2)" by (cases "frames c1 fs")
  from draw_overlay_keeps [of c p e ld sc] Cons.prems d1 have "c1 p = Some e" by simp
  with Cons.IH [of c1] d2 have "c2 p = Some e" by simp
  with f d1 d2 show ?case by simp
qed

lemma frames_no_load:
  "c p = Some e \<Longrightarrow>
     LoadOk p \<notin> set (snd (frames c fs)) \<and> LoadFail p \<notin> set (snd (frames c fs))"
proof (induction fs arbitrary: c)
  case Nil
  then show ?case by simp
next
  case (Cons f fs)
  obtain ld sc where f: "f = (ld, sc)" by (cases f)
  obtain c1 e1 where d1: "draw_overlay ld c sc = (c1, e1)" by (cases "draw_overlay ld c sc")
  obtain c2 e2 where d2: "frames c1 fs = (c2, e2)" by (cases "frames c1 fs")
  from draw_overlay_keeps [of c p e ld sc] Cons.prems d1 have k: "c1 p = Some e" by simp
  from draw_overlay_no_load [of c p e ld sc] Cons.prems d1
  have a: "LoadOk p \<notin> set e1 \<and> LoadFail p \<notin> set e1" by simp
  from Cons.IH [of c1] k d2 have b: "LoadOk p \<notin> set e2 \<and> LoadFail p \<notin> set e2" by simp
  from a b f d1 d2 show ?case by simp
qed

text \<open>Splitting a two-part trace at a completed load.\<close>

lemma split_after_load:
  assumes tr: "e1 @ e2 = xs @ LoadOk p # ys"
    and first: "\<And>us vs. e1 = us @ LoadOk p # vs \<Longrightarrow>
                  c1 p \<noteq> None \<and> LoadOk p \<notin> set vs \<and> LoadFail p \<notin> set vs"
    and rest_quiet: "c1 p \<noteq> None \<Longrightarrow> c2 p \<noteq> None \<and> LoadOk p \<notin> set e2 \<and> LoadFail p \<notin> set e2"
    and rest_split: "\<And>us vs. e2 = us @ LoadOk p # vs \<Longrightarrow>
                  c2 p \<noteq> None \<and> LoadOk p \<notin> set vs \<and> LoadFail p \<notin> set vs"
  shows "c2 p \<noteq> None \<and> LoadOk p \<notin> set ys \<and> LoadFail p \<notin> set ys"
proof -
  from tr have "(\<exists>us. e1 = xs @ us \<and> us @ e2 = LoadOk p # ys) \<or>
                (\<exists>us. e1 @ us = xs \<and> e2 = us @ LoadOk p # ys)"
    by (auto simp: append_eq_append_conv2)
  then show ?thesis
  proof (elim disjE exE conjE)
    fix us assume l: "e1 = xs @ us" "us @ e2 = LoadOk p # ys"
    show ?thesis
    proof (cases us)
      case Nil
      with l have "e2 = [] @ LoadOk p # ys" by simp
      from rest_split [OF this] show ?thesis .
    next
      case (Cons u vs)
      with l have us: "e1 = xs @ LoadOk p # vs" and ys: "ys = vs @ e2" by simp_all
      from first [OF us]
      have a: "c1 p \<noteq> None \<and> LoadOk p \<notin> set vs \<and> LoadFail p \<notin> set vs" .
      with rest_quiet ys show ?thesis by simp
    qed
  next
    fix us assume "e1 @ us = xs" "e2 = us @ LoadOk p # ys"
    from rest_split [OF this(2)] show ?thesis .
  qed
qed

lemma load_at_head:
  assumes "e # q = xs @ LoadOk p # ys" and "LoadOk p \<notin> set q"
  shows "xs = [] \<and> e = LoadOk p \<and> ys = q"
proof (cases xs)
  case Nil
  with assms show ?thesis by simp
next
  case (Cons x xs')
  with assms have "q = xs' @ LoadOk p # ys" by simp
  with assms(2) show ?thesis by simp
qed

lemma draw_image_shape:
  obtains (quiet) "LoadOk p \<notin> set (snd (draw_image ld c r))"
  | (loaded) q where "snd (draw_image ld c r) = LoadOk p # q"
      "LoadOk p \<notin> set q" "LoadFail p \<notin> set q" "fst (draw_image ld c r) p \<noteq> None"
proof (cases "visible r \<and> c (filepath r) = None \<and> ld (filepath r) \<noteq> None \<and> p = filepath r")
  case False
  then have "LoadOk p \<notin> set (snd (draw_image ld c r))"
    using draw_quad_no_load [of p r]
    by (auto simp: draw_image_def resolve_def split: option.splits)
  then show ?thesis by (rule quiet)
next
  case True
  then obtain im t where l: "ld (filepath r) = Some (im, t)" by auto
  show ?thesis
  proof (cases "\<not> has_data im \<or> fst (size_px im) = 0 \<or> snd (size_px im) = 0")
    case True
    with \<open>visible r \<and> c (filepath r) = None \<and> ld (filepath r) \<noteq> None \<and> p = filepath r\<close> l
    have "snd (draw_image ld c r) = LoadOk p # []" "fst (draw_image ld c r) p \<noteq> None"
      by (auto simp: draw_image_def resolve_def)
    then show ?thesis by (intro loaded [of "[]"]) auto
  next
    case False
    with \<open>visible r \<and> c (filepath r) = None \<and> ld (filepath r) \<noteq> None \<and> p = filepath r\<close> l
    have "snd (draw_image ld c r) = LoadOk p # draw_quad r im t" "fst (draw_image ld c r) p \<noteq> None"
      by (auto simp: draw_image_def resolve_def)
    then show ?thesis using draw_quad_no_load [of p r im t] by (intro loaded [of "draw_quad r im t"]) auto
  qed
qed

lemma draw_image_after_load:
  assumes tr: "snd (draw_image ld c r) = xs @ LoadOk p # ys"
  shows "fst (draw_image ld c r) p \<noteq> None \<and> LoadOk p \<notin> set ys \<and> LoadFail p \<notin> set ys"
proof (cases p ld c r rule: draw_image_shape)
  case quiet
  with tr show ?thesis by simp
next
  case (loaded q)
  from loaded(1) tr have "LoadOk p # q = xs @ LoadOk p # ys" by simp
  from load_at_head [OF this loaded(2)] have "ys = q" by simp
  with loaded show ?thesis by simp
qed

lemma draw_images_after_load:
  "snd (draw_images ld c rs) = xs @ LoadOk p # ys \<Longrightarrow>
     fst (draw_images ld c rs) p \<noteq> None \<and> LoadOk p \<notin> set ys \<and> LoadFail p \<notin> set ys"
proof (induction rs arbitrary: c xs ys)
  case Nil
  then show ?case by simp
next
  case (Cons r rs)
  obtain c1 e1 where d1: "draw_image ld c r = (c1, e1)" by (cases "draw_image ld c r")
  obtain c2 e2 where d2: "draw_images ld c1 rs = (c2, e2)" by (cases "draw_images ld c1 rs")
  from Cons.prems d1 d2 have tr: "e1 @ e2 = xs @ LoadOk p # ys" by simp
  have "c2 p \<noteq> None \<and> LoadOk p \<notin> set ys \<and> LoadFail p \<notin> set ys"
  proof (rule split_after_load [OF tr, of c1 c2])
    fix us vs assume "e1 = us @ LoadOk p # vs"
    with draw_image_after_load [of ld c r us p vs] d1
    show "c1 p \<noteq> None \<and> LoadOk p \<notin> set vs \<and> LoadFail p \<notin> set vs" by simp
  next
    assume "c1 p \<noteq> None"
    then obtain e where k: "c1 p = Some e" by auto
    from draw_images_keeps [of c1 p e ld rs] draw_images_no_load [of c1 p e ld rs] k d2
    show "c2 p \<noteq> None \<and> LoadOk p \<notin> set e2 \<and> LoadFail p \<notin> set e2" by simp
  next
    fix us vs assume "e2 = us @ LoadOk p # vs"
    with Cons.IH [of c1 us vs] d2
    show "c2 p \<noteq> None \<and> LoadOk p \<notin> set vs \<and> LoadFail p \<notin> set vs" by simp
  qed
  with d1 d2 show ?case by simp
qed

lemma draw_overlay_after_load:
  "snd (draw_overlay ld c sc) = xs @ LoadOk p # ys \<Longrightarrow>
     fst (draw_overlay ld c sc) p \<noteq> None \<and> LoadOk p \<notin> set ys \<and> LoadFail p \<notin> set ys"
  using draw_images_after_load [of ld c "ryref_images sc" xs p ys]
  by (simp add: draw_overlay_def split: if_splits)

lemma frames_after_load:
  "snd (frames c fs) = xs @ LoadOk p # ys \<Longrightarrow>
     fst (frames c fs) p \<noteq> None \<and> LoadOk p \<notin> set ys \<and> LoadFail p \<notin> set ys"
proof (induction fs arbitrary: c xs ys)
  case Nil
  then show ?case by simp
next
  case (Cons f fs)
  obtain ld sc where f: "f = (ld, sc)" by (cases f)
  obtain c1 e1 where d1: "draw_overlay ld c sc = (c1, e1)" by (cases "draw_overlay ld c sc")
  obtain c2 e2 where d2: "frames c1 fs = (c2, e2)" by (cases "frames c1 fs")
  from Cons.prems f d1 d2 have tr: "e1 @ e2 = xs @ LoadOk p # ys" by simp
  have "c2 p \<noteq> None \<and> LoadOk p \<notin> set ys \<and> LoadFail p \<notin> set ys"
  proof (rule split_after_load [OF tr, of c1 c2])
    fix us vs assume "e1 = us @ LoadOk p # vs"
    with draw_overlay_after_load [of ld c sc us p vs] d1
    show "c1 p \<noteq> None \<and> LoadOk p \<notin> set vs \<and> LoadFail p \<notin> set vs" by simp
  next
    assume "c1 p \<noteq> None"
    then obtain e where k: "c1 p = Some e" by auto
    from frames_keeps [of c1 p e fs] frames_no_load [of c1 p e fs] k d2
    show "c2 p \<noteq> None \<and> LoadOk p \<notin> set e2 \<and> LoadFail p \<notin> set e2" by simp
  next
    fix us vs assume "e2 = us @ LoadOk p # vs"
    with Cons.IH [of c1 us vs] d2
    show "c2 p \<noteq> None \<and> LoadOk p \<notin> set vs \<and> LoadFail p \<notin> set vs" by simp
  qed
  with f d1 d2 show ?case by simp
qed

lemma after_load_count:
  assumes "\<And>xs ys. evs = xs @ LoadOk p # ys \<Longrightarrow> LoadOk p \<notin> set ys"
  shows "count_list evs (LoadOk p) \<le> 1"
proof (cases "LoadOk p \<in> set evs")
  case True
  from split_list_first [OF True]
  obtain xs ys where sp: "evs = xs @ LoadOk p # ys" and nx: "LoadOk p \<notin> set xs"
    by blast
  from assms [OF sp] nx sp show ?thesis by simp
next
  case False
  then show ?thesis by simp
qed

lemma frames_count: "count_list (snd (frames c fs)) (LoadOk p) \<le> 1"
proof (rule after_load_count)
  fix xs ys assume "snd (frames c fs) = xs @ LoadOk p # ys"
  from frames_after_load [OF this] show "LoadOk p \<notin> set ys" by simp
qed

lemma draw_quad_batch:
  "BatchDraw b \<in> set (draw_quad r im t) \<Longrightarrow>
     texCoord b = uvs (flip_x r) (flip_y r) \<and> indices b = [(0, 1, 2), (2, 3, 0)]"
  by (auto simp: draw_quad_def split: prod.splits)

lemma draw_image_batch:
  "BatchDraw b \<in> set (snd (draw_image ld c r)) \<Longrightarrow>
     visible r \<and> texCoord b = uvs (flip_x r) (flip_y r) \<and> indices b = [(0, 1, 2), (2, 3, 0)]"
  using draw_quad_batch [of b r]
  by (auto simp: draw_image_def resolve_def split: option.splits if_splits)

lemma draw_images_batch:
  "BatchDraw b \<in> set (snd (draw_images ld c rs)) \<Longrightarrow>
     \<exists>r\<in>set rs. visible r \<and> texCoord b = uvs (flip_x r) (flip_y r) \<and> indices b = [(0, 1, 2), (2, 3, 0)]"
proof (induction rs arbitrary: c)
  case Nil
  then show ?case by simp
next
  case (Cons r rs)
  obtain c1 e1 where d1: "draw_image ld c r = (c1, e1)" by (cases "draw_image ld c r")
  obtain c2 e2 where d2: "draw_images ld c1 rs = (c2, e2)" by (cases "draw_images ld c1 rs")
  from Cons.prems d1 d2 have "BatchDraw b \<in> set e1 \<or> BatchDraw b \<in> set e2" by auto
  then show ?case
  proof
    assume "BatchDraw b \<in> set e1"
    with draw_image_batch [of b ld c r] d1 show ?thesis by simp
  next
    assume "BatchDraw b \<in> set e2"
    with Cons.IH [of c1] d2 show ?thesis by auto
  qed
qed



lemma draw_image_attempt:
  "visible r \<Longrightarrow> c (filepath r) = None \<Longrightarrow>
     LoadOk (filepath r) \<in> set (snd (draw_image ld c r)) \<or>
     LoadFail (filepath r) \<in> set (snd (draw_image ld c r))"
  by (auto simp: draw_image_def resolve_def split: option.splits)

lemma draw_image_new_entry:
  "c p = None \<Longrightarrow> fst (draw_image ld c r) p \<noteq> None \<Longrightarrow> LoadOk p \<in> set (snd (draw_image ld c r))"
  by (auto simp: draw_image_def resolve_def split: option.splits if_splits)

lemma draw_images_attempt:
  "r \<in> set rs \<Longrightarrow> visible r \<Longrightarrow> c (filepath r) = None \<Longrightarrow>
     LoadOk (filepath r) \<in> set (snd (draw_images ld c rs)) \<or>
     LoadFail (filepath r) \<in> set (snd (draw_images ld c rs))"
proof (induction rs arbitrary: c)
  case Nil
  then show ?case by simp
next
  case (Cons r0 rs)
  obtain c1 e1 where d1: "draw_image ld c r0 = (c1, e1)" by (cases "draw_image ld c r0")
  obtain c2 e2 where d2: "draw_images ld c1 rs = (c2, e2)" by (cases "draw_images ld c1 rs")
  have "LoadOk (filepath r) \<in> set e1 \<or> LoadFail (filepath r) \<in> set e1 \<or>
        LoadOk (filepath r) \<in> set e2 \<or> LoadFail (filepath r) \<in> set e2"
  proof (cases "r = r0")
    case True
    with draw_image_attempt [of r c ld] Cons.prems d1 show ?thesis by auto
  next
    case False
    with Cons.prems have mem: "r \<in> set rs" by simp
    show ?thesis
    proof (cases "c1 (filepath r)")
      case None
      with Cons.IH [of c1] mem Cons.prems(2) d2 show ?thesis by simp
    next
      case (Some e)
      with draw_image_new_entry [of c "filepath r" ld r0] Cons.prems(3) d1 show ?thesis by simp
    qed
  qed
  with d1 d2 show ?case by auto
qed

lemma swap_adjacent:
  assumes "Suc j < length xs"
  shows "take j xs @ [xs ! Suc j, xs ! j] @ drop (Suc (Suc j)) xs = xs[j := xs ! Suc j, Suc j := xs ! j]"
proof -
  from assms have xs: "xs = take j xs @ xs ! j # xs ! Suc j # drop (Suc (Suc j)) xs"
    by (simp add: Cons_nth_drop_Suc Suc_lessD)
  have lt: "length (take j xs) = j" using assms by simp
  have "xs[j := xs ! Suc j, Suc j := xs ! j]
      = (take j xs @ xs ! j # xs ! Suc j # drop (Suc (Suc j)) xs)[j := xs ! Suc j, Suc j := xs ! j]"
    using xs by simp
  also have "\<dots> = take j xs @ [xs ! Suc j, xs ! j] @ drop (Suc (Suc j)) xs"
    using lt by (simp add: list_update_append)
  finally show ?thesis by simp
qed

lemma coll_move_up:
  assumes "0 < i" and "i < int (length xs)"
  shows "coll_move xs i (i - 1) = xs[nat i - 1 := xs ! nat i, nat i := xs ! (nat i - 1)]"
proof -
  obtain j where j: "nat i = Suc j" using assms(1) by (cases "nat i") auto
  with assms have lt: "Suc j < length xs" by linarith
  from j have j1: "nat (i - 1) = j" by linarith
  from assms have "coll_move xs i (i - 1)
      = take (nat (i - 1)) (take (nat i) xs @ drop (Suc (nat i)) xs) @ [xs ! nat i] @
        drop (nat (i - 1)) (take (nat i) xs @ drop (Suc (nat i)) xs)"
    by (simp add: coll_move_def Let_def)
  also have "\<dots> = take j (take (Suc j) xs @ drop (Suc (Suc j)) xs) @ [xs ! Suc j] @
        drop j (take (Suc j) xs @ drop (Suc (Suc j)) xs)"
    by (simp only: j j1)
  also have "take j (take (Suc j) xs @ drop (Suc (Suc j)) xs) = take j xs"
    using lt by (simp add: min_def)
  also have "drop j (take (Suc j) xs @ drop (Suc (Suc j)) xs) = xs ! j # drop (Suc (Suc j)) xs"
    using lt by (simp add: take_Suc_conv_app_nth)
  finally have "coll_move xs i (i - 1) = take j xs @ [xs ! Suc j, xs ! j] @ drop (Suc (Suc j)) xs"
    by simp
  with swap_adjacent [OF lt] j show ?thesis by simp
qed

lemma coll_move_down:
  assumes "0 \<le> i" and "i < int (length xs) - 1"
  shows "coll_move xs i (i + 1) = xs[nat i := xs ! (nat i + 1), nat i + 1 := xs ! nat i]"
proof -
  define j where "j = nat i"
  with assms have lt: "Suc j < length xs" and j1: "nat (i + 1) = Suc j" by linarith+
  from assms have "coll_move xs i (i + 1)
      = take (nat (i + 1)) (take (nat i) xs @ drop (Suc (nat i)) xs) @ [xs ! nat i] @
        drop (nat (i + 1)) (take (nat i) xs @ drop (Suc (nat i)) xs)"
    by (simp add: coll_move_def Let_def)
  also have "\<dots> = take (Suc j) (take j xs @ drop (Suc j) xs) @ [xs ! j] @
        drop (Suc j) (take j xs @ drop (Suc j) xs)"
    by (simp only: j_def [symmetric] j1)
  also have "take (Suc j) (take j xs @ drop (Suc j) xs) = take j xs @ [xs ! Suc j]"
    using lt by (simp add: min_def take_Suc_conv_app_nth Cons_nth_drop_Suc [symmetric])
  also have "drop (Suc j) (take j xs @ drop (Suc j) xs) = drop (Suc (Suc j)) xs"
    using lt by (simp add: min_def)
  finally have "coll_move xs i (i + 1) = take j xs @ [xs ! Suc j, xs ! j] @ drop (Suc (Suc j)) xs"
    by simp
  with swap_adjacent [OF lt] j_def show ?thesis by simp
qed




section \<open>The global switch\<close>

text \<open>
  C5.  When the global enable flag \<open>ryref_references_on\<close> is false, \<open>draw_overlay\<close>
  returns at once: for every record list, loader and cache it leaves the cache as
  it is and emits nothing at all, so no load is tried and no draw call is made,
  whatever the \<open>visible\<close> flags of the records are.
\<close>

theorem draw_overlay_disabled:
  "\<not> ryref_references_on sc \<Longrightarrow> draw_overlay ld c sc = (c, [])"
  by (simp add: draw_overlay_def)

theorem draw_overlay_disabled_witness:
  "visible (default_image\<lparr>filepath := ''a.png''\<rparr>) \<and>
   draw_overlay (Map.empty(''a.png'' \<mapsto> (\<lparr>has_data = True, size_px = (500, 300)\<rparr>, 1)))
      Map.empty
      \<lparr>ryref_images = [default_image\<lparr>filepath := ''a.png''\<rparr>],
       ryref_index = 0, ryref_references_on = False\<rparr>
    = (Map.empty, [])"
  using draw_overlay_disabled
    [of "\<lparr>ryref_images = [default_image\<lparr>filepath := ''a.png''\<rparr>],
         ryref_index = 0, ryref_references_on = False\<rparr>"
        "Map.empty(''a.png'' \<mapsto> (\<lparr>has_data = True, size_px = (500, 300)\<rparr>, 1))"
        Map.empty]
  by (simp add: default_image_def)

section \<open>Texture coordinates\<close>

text \<open>
  C3.  For every combination of \<open>flip_x\<close> and \<open>flip_y\<close> the texture coordinates are
  the unit square \<open>(0,0),(1,0),(1,1),(0,1)\<close> with each \<open>u\<close> replaced by \<open>1 - u\<close> when
  \<open>flip_x\<close> holds and each \<open>v\<close> by \<open>1 - v\<close> when \<open>flip_y\<close> holds, the two flips
  composing independently: \<open>flip_x\<close> alone gives \<open>(1,0),(0,0),(0,1),(1,1)\<close>, both
  flips give \<open>(1,1),(0,1),(0,0),(1,0)\<close>.  Every batch a frame draws carries these
  coordinates, computed from the flags of a visible record of the scene.
\<close>

theorem uvs_flips:
  "uvs fx fy = map (\<lambda>(u, v). (if fx then 1 - u else u, if fy then 1 - v else v))
                   [(0, 0), (1, 0), (1, 1), (0, 1)]
   \<and> uvs True False = [(1, 0), (0, 0), (0, 1), (1, 1)]
   \<and> uvs True True = [(1, 1), (0, 1), (0, 0), (1, 0)]
   \<and> (\<forall>b. BatchDraw b \<in> set (snd (draw_overlay ld c sc)) \<longrightarrow>
          (\<exists>r\<in>set (ryref_images sc). visible r \<and> texCoord b = uvs (flip_x r) (flip_y r)))"
proof -
  have a: "uvs fx fy = map (\<lambda>(u, v). (if fx then 1 - u else u, if fy then 1 - v else v))
                   [(0, 0), (1, 0), (1, 1), (0, 1)]"
    by (simp add: uvs_def)
  have b: "uvs True False = [(1, 0), (0, 0), (0, 1), (1, 1)]" by (simp add: uvs_def)
  have c: "uvs True True = [(1, 1), (0, 1), (0, 0), (1, 0)]" by (simp add: uvs_def)
  have d: "\<exists>r\<in>set (ryref_images sc). visible r \<and> texCoord b = uvs (flip_x r) (flip_y r)"
    if "BatchDraw b \<in> set (snd (draw_overlay ld c sc))" for b
    using that draw_images_batch [of b ld c "ryref_images sc"]
    by (auto simp: draw_overlay_def split: if_splits)
  from a b c d show ?thesis by blast
qed

theorem uvs_flips_witness:
  "BatchDraw \<lparr>pos = [(100, 100), (200, 100), (200, 160), (100, 160)],
              texCoord = [(1, 0), (0, 0), (0, 1), (1, 1)],
              indices = [(0, 1, 2), (2, 3, 0)]\<rparr>
     \<in> set (snd (draw_overlay
                 (Map.empty(''a.png'' \<mapsto> (\<lparr>has_data = True, size_px = (500, 300)\<rparr>, 1)))
                 Map.empty
                 \<lparr>ryref_images = [default_image\<lparr>filepath := ''a.png'', flip_x := True\<rparr>],
                  ryref_index = 0, ryref_references_on = True\<rparr>))
   \<and> visible (default_image\<lparr>filepath := ''a.png'', flip_x := True\<rparr>)
   \<and> [(1, 0), (0, 0), (0, 1), (1, 1)] = uvs True False"
proof -
  let ?b = "\<lparr>pos = [(100, 100), (200, 100), (200, 160), (100, 160)],
              texCoord = [(1, 0), (0, 0), (0, 1), (1, 1)],
              indices = [(0, 1, 2), (2, 3, 0)]\<rparr>"
  let ?ld = "Map.empty(''a.png'' \<mapsto> (\<lparr>has_data = True, size_px = (500, 300)\<rparr>, 1::nat))"
  let ?sc = "\<lparr>ryref_images = [default_image\<lparr>filepath := ''a.png'', flip_x := True\<rparr>],
                  ryref_index = 0, ryref_references_on = True\<rparr>"
  have h: "BatchDraw ?b \<in> set (snd (draw_overlay ?ld Map.empty ?sc))"
    by (simp add: draw_overlay_def draw_image_def resolve_def draw_quad_def coords_def uvs_def
        default_image_def)
  from uvs_flips [of True False ?ld Map.empty ?sc] h show ?thesis
    by (simp add: default_image_def)
qed

section \<open>Hidden records\<close>

text \<open>
  C6.  A record with \<open>visible = False\<close> is skipped entirely: the loop body leaves
  the cache as it is and emits nothing for it (no lookup result is used, no load
  is tried, no GPU call is made), whatever the cache holds; and the whole loop
  behaves exactly as if the record were not in the list.
\<close>

theorem hidden_record_skipped:
  "\<not> visible r \<Longrightarrow>
     draw_image ld c r = (c, []) \<and>
     draw_images ld c (pre @ r # post) = draw_images ld c (pre @ post)"
  by (simp add: draw_images_append draw_image_hidden split: prod.splits)

theorem hidden_record_skipped_witness:
  "\<not> visible (default_image\<lparr>filepath := ''h.png'', visible := False\<rparr>) \<and>
   draw_image (Map.empty(''h.png'' \<mapsto> (\<lparr>has_data = True, size_px = (500, 300)\<rparr>, 1)))
      (Map.empty(''h.png'' \<mapsto> (\<lparr>has_data = True, size_px = (500, 300)\<rparr>, 1)))
      (default_image\<lparr>filepath := ''h.png'', visible := False\<rparr>)
     = (Map.empty(''h.png'' \<mapsto> (\<lparr>has_data = True, size_px = (500, 300)\<rparr>, 1)), []) \<and>
   draw_images (Map.empty(''h.png'' \<mapsto> (\<lparr>has_data = True, size_px = (500, 300)\<rparr>, 1)))
      (Map.empty(''h.png'' \<mapsto> (\<lparr>has_data = True, size_px = (500, 300)\<rparr>, 1)))
      [default_image\<lparr>filepath := ''h.png'', visible := False\<rparr>]
     = (Map.empty(''h.png'' \<mapsto> (\<lparr>has_data = True, size_px = (500, 300)\<rparr>, 1)), [])"
  using hidden_record_skipped
    [of "default_image\<lparr>filepath := ''h.png'', visible := False\<rparr>"
        "Map.empty(''h.png'' \<mapsto> (\<lparr>has_data = True, size_px = (500, 300)\<rparr>, 1))"
        "Map.empty(''h.png'' \<mapsto> (\<lparr>has_data = True, size_px = (500, 300)\<rparr>, 1))"
        "[]" "[]"]
  by (simp add: default_image_def)

section \<open>One decode and upload per path\<close>

text \<open>
  C7.  Across any sequence of frames with no eviction in between (any scenes, any
  loaders), a decode-and-upload completes at most once per path.  Once a path
  has a cache entry, whether it was there at the start or was stored by a
  completed load earlier in the run, every later resolve of that path, from
  whichever record, finds the stored entry: the entry is kept as it is and the
  \<open>try\<close> block is not run for that path again.
\<close>

theorem decode_upload_at_most_once:
  "count_list (snd (frames c fs)) (LoadOk p) \<le> 1
   \<and> (\<forall>xs ys. snd (frames c fs) = xs @ LoadOk p # ys \<longrightarrow>
         LoadOk p \<notin> set ys \<and> LoadFail p \<notin> set ys \<and> fst (frames c fs) p \<noteq> None)
   \<and> (\<forall>e. c p = Some e \<longrightarrow>
         fst (frames c fs) p = Some e \<and>
         LoadOk p \<notin> set (snd (frames c fs)) \<and> LoadFail p \<notin> set (snd (frames c fs)))"
  using frames_count [of c fs p] frames_after_load [of c fs _ p] frames_keeps [of c p _ fs]
    frames_no_load [of c p _ fs]
  by blast

theorem decode_upload_at_most_once_witness:
  "snd (frames Map.empty
         [(Map.empty(''a.png'' \<mapsto> (\<lparr>has_data = True, size_px = (500, 300)\<rparr>, 1)),
           \<lparr>ryref_images = [default_image\<lparr>filepath := ''a.png''\<rparr>,
                            default_image\<lparr>filepath := ''a.png'', flip_x := True\<rparr>],
            ryref_index = 0, ryref_references_on = True\<rparr>),
          (Map.empty,
           \<lparr>ryref_images = [default_image\<lparr>filepath := ''a.png''\<rparr>],
            ryref_index = 0, ryref_references_on = True\<rparr>)])
     = [] @ LoadOk ''a.png'' #
         (draw_quad (default_image\<lparr>filepath := ''a.png''\<rparr>)
            \<lparr>has_data = True, size_px = (500, 300)\<rparr> 1 @
          draw_quad (default_image\<lparr>filepath := ''a.png'', flip_x := True\<rparr>)
            \<lparr>has_data = True, size_px = (500, 300)\<rparr> 1 @
          draw_quad (default_image\<lparr>filepath := ''a.png''\<rparr>)
            \<lparr>has_data = True, size_px = (500, 300)\<rparr> 1)
   \<and> LoadOk ''a.png'' \<notin> set
         (draw_quad (default_image\<lparr>filepath := ''a.png''\<rparr>)
            \<lparr>has_data = True, size_px = (500, 300)\<rparr> 1 @
          draw_quad (default_image\<lparr>filepath := ''a.png'', flip_x := True\<rparr>)
            \<lparr>has_data = True, size_px = (500, 300)\<rparr> 1 @
          draw_quad (default_image\<lparr>filepath := ''a.png''\<rparr>)
            \<lparr>has_data = True, size_px = (500, 300)\<rparr> 1)
   \<and> (Map.empty(''a.png'' \<mapsto> (\<lparr>has_data = True, size_px = (500, 300)\<rparr>, 1::nat))) ''a.png''
        = Some (\<lparr>has_data = True, size_px = (500, 300)\<rparr>, 1)
   \<and> LoadOk ''a.png'' \<notin> set (snd (frames
         (Map.empty(''a.png'' \<mapsto> (\<lparr>has_data = True, size_px = (500, 300)\<rparr>, 1)))
         [(Map.empty,
           \<lparr>ryref_images = [default_image\<lparr>filepath := ''a.png''\<rparr>],
            ryref_index = 0, ryref_references_on = True\<rparr>)]))"
proof -
  let ?im = "\<lparr>has_data = True, size_px = (500, 300)\<rparr>"
  let ?ld = "Map.empty(''a.png'' \<mapsto> (?im, 1::nat))"
  let ?a = "default_image\<lparr>filepath := ''a.png''\<rparr>"
  let ?b = "default_image\<lparr>filepath := ''a.png'', flip_x := True\<rparr>"
  let ?s1 = "\<lparr>ryref_images = [?a, ?b], ryref_index = 0, ryref_references_on = True\<rparr>"
  let ?s2 = "\<lparr>ryref_images = [?a], ryref_index = 0, ryref_references_on = True\<rparr>"
  let ?ys = "draw_quad ?a ?im 1 @ draw_quad ?b ?im 1 @ draw_quad ?a ?im 1"
  have h: "snd (frames Map.empty [(?ld, ?s1), (Map.empty, ?s2)]) = [] @ LoadOk ''a.png'' # ?ys"
    by (simp add: draw_overlay_def draw_image_def resolve_def default_image_def)
  have k: "?ld ''a.png'' = Some (?im, 1)" by simp
  from decode_upload_at_most_once [of Map.empty "[(?ld, ?s1), (Map.empty, ?s2)]" "''a.png''"] h
  have a: "LoadOk ''a.png'' \<notin> set ?ys" by blast
  from decode_upload_at_most_once [of ?ld "[(Map.empty, ?s2)]" "''a.png''"] k
  have b: "LoadOk ''a.png'' \<notin> set (snd (frames ?ld [(Map.empty, ?s2)]))" by blast
  from h a k b show ?thesis by blast
qed

section \<open>Degenerate assets\<close>

text \<open>
  C10.  When the image of a visible record loads but has zero width or zero
  height, the compositor has already stored the cache entry for its path when
  it skips the record.  So, unlike after a load failure, the asset is not decoded
  again: with that entry in the cache the record is skipped without any event,
  under any loader, and through any later frames the entry stays as it is and
  no load is tried for the path.
\<close>

theorem degenerate_asset_cached:
  assumes "visible r" and "c (filepath r) = None" and "ld (filepath r) = Some (im, tex)"
    and "fst (size_px im) = 0 \<or> snd (size_px im) = 0"
  shows "draw_image ld c r = (c(filepath r \<mapsto> (im, tex)), [LoadOk (filepath r)])
     \<and> draw_image ld' (c(filepath r \<mapsto> (im, tex))) r = (c(filepath r \<mapsto> (im, tex)), [])
     \<and> fst (frames (c(filepath r \<mapsto> (im, tex))) fs) (filepath r) = Some (im, tex)
     \<and> LoadOk (filepath r) \<notin> set (snd (frames (c(filepath r \<mapsto> (im, tex))) fs))
     \<and> LoadFail (filepath r) \<notin> set (snd (frames (c(filepath r \<mapsto> (im, tex))) fs))"
proof -
  let ?c = "c(filepath r \<mapsto> (im, tex))"
  have k: "?c (filepath r) = Some (im, tex)" by simp
  from assms have a: "draw_image ld c r = (?c, [LoadOk (filepath r)])"
    by (auto simp: draw_image_def resolve_def)
  from assms(1,4) have b: "draw_image ld' ?c r = (?c, [])"
    by (auto simp: draw_image_def resolve_def)
  from a b k frames_keeps [of ?c "filepath r" "(im, tex)" fs]
    frames_no_load [of ?c "filepath r" "(im, tex)" fs]
  show ?thesis by blast
qed

theorem degenerate_asset_cached_witness:
  "draw_image (Map.empty(''z.png'' \<mapsto> (\<lparr>has_data = True, size_px = (0, 300)\<rparr>, 2)))
      Map.empty (default_image\<lparr>filepath := ''z.png''\<rparr>)
     = (Map.empty(''z.png'' \<mapsto> (\<lparr>has_data = True, size_px = (0, 300)\<rparr>, 2)), [LoadOk ''z.png''])
   \<and> draw_image Map.empty
        (Map.empty(''z.png'' \<mapsto> (\<lparr>has_data = True, size_px = (0, 300)\<rparr>, 2)))
        (default_image\<lparr>filepath := ''z.png''\<rparr>)
     = (Map.empty(''z.png'' \<mapsto> (\<lparr>has_data = True, size_px = (0, 300)\<rparr>, 2)), [])
   \<and> fst (frames (Map.empty(''z.png'' \<mapsto> (\<lparr>has_data = True, size_px = (0, 300)\<rparr>, 2)))
         [(Map.empty,
           \<lparr>ryref_images = [default_image\<lparr>filepath := ''z.png''\<rparr>],
            ryref_index = 0, ryref_references_on = True\<rparr>)]) ''z.png''
     = Some (\<lparr>has_data = True, size_px = (0, 300)\<rparr>, 2)"
proof -
  let ?im = "\<lparr>has_data = True, size_px = (0, 300)\<rparr>"
  let ?r = "default_image\<lparr>filepath := ''z.png''\<rparr>"
  let ?ld = "Map.empty(''z.png'' \<mapsto> (?im, 2::nat))"
  let ?fs = "[(Map.empty, \<lparr>ryref_images = [?r], ryref_index = 0, ryref_references_on = True\<rparr>)]"
  have v: "visible ?r" by (simp add: default_image_def)
  have n: "(Map.empty :: image_cache) (filepath ?r) = None" by simp
  have l: "?ld (filepath ?r) = Some (?im, 2)" by (simp add: default_image_def)
  have z: "fst (size_px ?im) = 0 \<or> snd (size_px ?im) = 0" by simp
  from v n l z
    degenerate_asset_cached [where r = ?r and c = Map.empty and ld = ?ld and im = ?im
      and tex = 2 and ld' = Map.empty and fs = ?fs]
  show ?thesis by (simp add: default_image_def)
qed

section \<open>Load failures\<close>



section \<open>Reordering\<close>

text \<open>
  C9.  For every record list and every in-range move (up when the index is
  positive, down when it is below the last position) \<open>move_image_execute\<close> only
  exchanges the selected record with its neighbour: the new list is the old one
  with the two positions swapped, so it holds the same records with the same
  fields; the selected index follows the moved record; and the cache is returned
  as it was.
\<close>

theorem move_permutes_only:
  assumes "0 \<le> ryref_index sc" and "ryref_index sc < int (length (ryref_images sc))"
    and "dir = UP \<longrightarrow> 0 < ryref_index sc"
    and "dir = DOWN \<longrightarrow> ryref_index sc < int (length (ryref_images sc)) - 1"
  shows "\<exists>sc'. move_image_execute dir (c, sc) = Inr (FINISHED, c, sc')
      \<and> ryref_index sc' = (if dir = UP then ryref_index sc - 1 else ryref_index sc + 1)
      \<and> ryref_images sc'
          = (ryref_images sc)
              [nat (ryref_index sc) := ryref_images sc ! nat (ryref_index sc'),
               nat (ryref_index sc') := ryref_images sc ! nat (ryref_index sc)]
      \<and> ryref_images sc' ! nat (ryref_index sc') = ryref_images sc ! nat (ryref_index sc)
      \<and> mset (ryref_images sc') = mset (ryref_images sc)
      \<and> ryref_references_on sc' = ryref_references_on sc"
proof (cases dir)
  case UP
  let ?xs = "ryref_images sc" and ?i = "ryref_index sc"
  let ?sc' = "sc\<lparr>ryref_images := coll_move ?xs ?i (?i - 1), ryref_index := ?i - 1\<rparr>"
  from UP assms have pos: "0 < ?i" by simp
  then have n: "nat (?i - 1) = nat ?i - 1" by linarith
  from pos assms(2) have b: "nat ?i < length ?xs" "nat ?i - 1 < length ?xs" "nat ?i - 1 \<noteq> nat ?i"
    by linarith+
  from UP pos have ex: "move_image_execute dir (c, sc) = Inr (FINISHED, c, ?sc')"
    by (simp add: move_image_execute_def Let_def)
  from coll_move_up [OF pos assms(2)]
  have "coll_move ?xs ?i (?i - 1) = ?xs[nat ?i - 1 := ?xs ! nat ?i, nat ?i := ?xs ! (nat ?i - 1)]" .
  also have "\<dots> = ?xs[nat ?i := ?xs ! (nat ?i - 1), nat ?i - 1 := ?xs ! nat ?i]"
    using b(3) by (simp add: list_update_swap)
  finally have mv:
    "coll_move ?xs ?i (?i - 1) = ?xs[nat ?i := ?xs ! (nat ?i - 1), nat ?i - 1 := ?xs ! nat ?i]" .
  from b have ms: "mset (?xs[nat ?i := ?xs ! (nat ?i - 1), nat ?i - 1 := ?xs ! nat ?i]) = mset ?xs"
    by (simp add: mset_swap)
  from b have at: "?xs[nat ?i := ?xs ! (nat ?i - 1), nat ?i - 1 := ?xs ! nat ?i] ! (nat ?i - 1)
      = ?xs ! nat ?i"
    by simp
  from ex mv ms at n UP show ?thesis by simp
next
  case DOWN
  let ?xs = "ryref_images sc" and ?i = "ryref_index sc"
  let ?sc' = "sc\<lparr>ryref_images := coll_move ?xs ?i (?i + 1), ryref_index := ?i + 1\<rparr>"
  from DOWN assms have lt: "?i < int (length ?xs) - 1" by simp
  from assms(1) have n: "nat (?i + 1) = nat ?i + 1" by linarith
  from assms(1) lt have b: "nat ?i < length ?xs" "nat ?i + 1 < length ?xs" by linarith+
  from DOWN lt have ex: "move_image_execute dir (c, sc) = Inr (FINISHED, c, ?sc')"
    by (simp add: move_image_execute_def Let_def)
  from coll_move_down [OF assms(1) lt]
  have mv: "coll_move ?xs ?i (?i + 1) = ?xs[nat ?i := ?xs ! (nat ?i + 1), nat ?i + 1 := ?xs ! nat ?i]" .
  from b have ms: "mset (?xs[nat ?i := ?xs ! (nat ?i + 1), nat ?i + 1 := ?xs ! nat ?i]) = mset ?xs"
    by (simp add: mset_swap)
  from b have at: "?xs[nat ?i := ?xs ! (nat ?i + 1), nat ?i + 1 := ?xs ! nat ?i] ! (nat ?i + 1)
      = ?xs ! nat ?i"
    by simp
  from ex mv ms at n DOWN show ?thesis by simp
qed

theorem move_permutes_only_witness:
  "move_image_execute UP
     (Map.empty(''a.png'' \<mapsto> (\<lparr>has_data = True, size_px = (500, 300)\<rparr>, 1)),
      \<lparr>ryref_images = [default_image\<lparr>filepath := ''a.png''\<rparr>,
                       default_image\<lparr>filepath := ''b.png''\<rparr>],
       ryref_index = 1, ryref_references_on = True\<rparr>)
   = Inr (FINISHED,
          Map.empty(''a.png'' \<mapsto> (\<lparr>has_data = True, size_px = (500, 300)\<rparr>, 1)),
          \<lparr>ryref_images = [default_image\<lparr>filepath := ''b.png''\<rparr>,
                           default_image\<lparr>filepath := ''a.png''\<rparr>],
           ryref_index = 0, ryref_references_on = True\<rparr>)"
proof -
  let ?c = "Map.empty(''a.png'' \<mapsto> (\<lparr>has_data = True, size_px = (500, 300)\<rparr>, 1::nat))"
  let ?sc = "\<lparr>ryref_images = [default_image\<lparr>filepath := ''a.png''\<rparr>,
                       default_image\<lparr>filepath := ''b.png''\<rparr>],
       ryref_index = 1, ryref_references_on = True\<rparr>"
  have h: "0 \<le> ryref_index ?sc" "ryref_index ?sc < int (length (ryref_images ?sc))"
    "UP = UP \<longrightarrow> 0 < ryref_index ?sc"
    "UP = DOWN \<longrightarrow> ryref_index ?sc < int (length (ryref_images ?sc)) - 1"
    by simp_all
  from move_permutes_only [where sc = ?sc and dir = UP and c = ?c] h
  obtain sc' where r: "move_image_execute UP (?c, ?sc) = Inr (FINISHED, ?c, sc')"
    and i: "ryref_index sc' = 0"
    and l: "ryref_images sc' = (ryref_images ?sc)
              [nat (ryref_index ?sc) := ryref_images ?sc ! nat (ryref_index sc'),
               nat (ryref_index sc') := ryref_images ?sc ! nat (ryref_index ?sc)]"
    and o: "ryref_references_on sc' = True"
    by auto
  from i l o have "sc' = \<lparr>ryref_images = [default_image\<lparr>filepath := ''b.png''\<rparr>,
                           default_image\<lparr>filepath := ''a.png''\<rparr>],
           ryref_index = 0, ryref_references_on = True\<rparr>"
    by (cases sc') simp
  with r show ?thesis by simp
qed

section \<open>Commands with the selected index out of range\<close>



section \<open>Quad geometry\<close>




section \<open>Removing a record\<close>

text \<open>
  \<open>remove_image_execute\<close> pops the path of the removed record from the cache
  without looking at the other records.  Two records share \<open>a.png\<close>; removing the
  first leaves the second in the list and the cache empty.
\<close>

theorem remove_image_evicts_shared_path:
  "remove_image_execute
     (Map.empty(''a.png'' \<mapsto> (\<lparr>has_data = True, size_px = (500, 300)\<rparr>, 1)),
      \<lparr>ryref_images = [default_image\<lparr>filepath := ''a.png''\<rparr>,
                       default_image\<lparr>filepath := ''a.png'', flip_x := True\<rparr>],
       ryref_index = 0, ryref_references_on = True\<rparr>)
   = Inr (FINISHED, Map.empty,
          \<lparr>ryref_images = [default_image\<lparr>filepath := ''a.png'', flip_x := True\<rparr>],
           ryref_index = 0, ryref_references_on = True\<rparr>)"
  by (simp add: remove_image_execute_def coll_get_def coll_remove_def default_image_def)

text \<open>
  C1 (as the code has it).  For every store and every valid selected index,
  the remove operation returns \<open>FINISHED\<close>, takes the selected record out of the
  list, moves the index to \<open>max 0 (idx - 1)\<close> and removes the cache entry of the
  removed record's path unconditionally, every other path keeping its entry.
  A remaining visible record that shares the path is then resolved on the next
  enabled frame by running the load again.
\<close>

theorem remove_image_evicts_unconditionally:
  assumes "0 \<le> ryref_index sc" and "ryref_index sc < int (length (ryref_images sc))"
  shows "\<exists>sc'. remove_image_execute (c, sc)
            = Inr (FINISHED, c(filepath (ryref_images sc ! nat (ryref_index sc)) := None), sc')
      \<and> ryref_images sc' = take (nat (ryref_index sc)) (ryref_images sc) @
                            drop (Suc (nat (ryref_index sc))) (ryref_images sc)
      \<and> ryref_index sc' = max 0 (ryref_index sc - 1)
      \<and> ryref_references_on sc' = ryref_references_on sc
      \<and> (\<forall>r\<in>set (ryref_images sc').
            visible r \<and> filepath r = filepath (ryref_images sc ! nat (ryref_index sc)) \<and>
            ryref_references_on sc' \<longrightarrow>
              LoadOk (filepath r) \<in> set (snd (draw_overlay ld
                  (c(filepath (ryref_images sc ! nat (ryref_index sc)) := None)) sc')) \<or>
              LoadFail (filepath r) \<in> set (snd (draw_overlay ld
                  (c(filepath (ryref_images sc ! nat (ryref_index sc)) := None)) sc')))"
proof -
  let ?p = "filepath (ryref_images sc ! nat (ryref_index sc))"
  let ?c = "c(?p := None)"
  let ?sc' = "sc\<lparr>ryref_images := coll_remove (ryref_images sc) (ryref_index sc),
                  ryref_index := max 0 (ryref_index sc - 1)\<rparr>"
  from assms have ex: "remove_image_execute (c, sc) = Inr (FINISHED, ?c, ?sc')"
    by (simp add: remove_image_execute_def coll_get_def Let_def)
  from assms have l: "ryref_images ?sc' = take (nat (ryref_index sc)) (ryref_images sc) @
                            drop (Suc (nat (ryref_index sc))) (ryref_images sc)"
    by (simp add: coll_remove_def)
  have re: "LoadOk (filepath r) \<in> set (snd (draw_overlay ld ?c ?sc')) \<or>
            LoadFail (filepath r) \<in> set (snd (draw_overlay ld ?c ?sc'))"
    if "r \<in> set (ryref_images ?sc')" "visible r" "filepath r = ?p" "ryref_references_on ?sc'" for r
  proof -
    from that(3) have "?c (filepath r) = None" by simp
    with draw_images_attempt [where r = r and rs = "ryref_images ?sc'" and c = ?c and ld = ld]
      that(1,2,4)
    show ?thesis by (simp add: draw_overlay_def)
  qed
  from ex l re show ?thesis by (intro exI [of _ ?sc']) auto
qed

theorem remove_image_evicts_unconditionally_witness:
  "remove_image_execute
     (Map.empty(''a.png'' \<mapsto> (\<lparr>has_data = True, size_px = (500, 300)\<rparr>, 1),
                ''b.png'' \<mapsto> (\<lparr>has_data = True, size_px = (40, 40)\<rparr>, 2)),
      \<lparr>ryref_images = [default_image\<lparr>filepath := ''a.png''\<rparr>,
                       default_image\<lparr>filepath := ''b.png''\<rparr>,
                       default_image\<lparr>filepath := ''a.png'', flip_x := True\<rparr>],
       ryref_index = 2, ryref_references_on = True\<rparr>)
   = Inr (FINISHED,
          Map.empty(''b.png'' \<mapsto> (\<lparr>has_data = True, size_px = (40, 40)\<rparr>, 2)),
          \<lparr>ryref_images = [default_image\<lparr>filepath := ''a.png''\<rparr>,
                           default_image\<lparr>filepath := ''b.png''\<rparr>],
           ryref_index = 1, ryref_references_on = True\<rparr>)
   \<and> LoadFail ''a.png''
       \<in> set (snd (draw_overlay Map.empty
                   (Map.empty(''b.png'' \<mapsto> (\<lparr>has_data = True, size_px = (40, 40)\<rparr>, 2)))
                   \<lparr>ryref_images = [default_image\<lparr>filepath := ''a.png''\<rparr>,
                                    default_image\<lparr>filepath := ''b.png''\<rparr>],
                    ryref_index = 1, ryref_references_on = True\<rparr>))"
proof -
  let ?c = "Map.empty(''a.png'' \<mapsto> (\<lparr>has_data = True, size_px = (500, 300)\<rparr>, 1::nat),
                ''b.png'' \<mapsto> (\<lparr>has_data = True, size_px = (40, 40)\<rparr>, 2))"
  let ?sc = "\<lparr>ryref_images = [default_image\<lparr>filepath := ''a.png''\<rparr>,
                       default_image\<lparr>filepath := ''b.png''\<rparr>,
                       default_image\<lparr>filepath := ''a.png'', flip_x := True\<rparr>],
       ryref_index = 2, ryref_references_on = True\<rparr>"
  have h: "0 \<le> ryref_index ?sc" "ryref_index ?sc < int (length (ryref_images ?sc))" by simp_all
  have e: "remove_image_execute (?c, ?sc)
     = Inr (FINISHED,
          Map.empty(''b.png'' \<mapsto> (\<lparr>has_data = True, size_px = (40, 40)\<rparr>, 2)),
          \<lparr>ryref_images = [default_image\<lparr>filepath := ''a.png''\<rparr>,
                           default_image\<lparr>filepath := ''b.png''\<rparr>],
           ryref_index = 1, ryref_references_on = True\<rparr>)"
    by (auto simp: remove_image_execute_def coll_get_def coll_remove_def default_image_def)
  from remove_image_evicts_unconditionally [where sc = ?sc and c = ?c and ld = Map.empty] h e
  show ?thesis
    by (auto simp: draw_overlay_def draw_image_def resolve_def default_image_def)
qed

end
